theory Spec2Isabelle
  imports Main "HOL-Library.Word"
begin

section \<open>convert\_image.py: a binary file rendered as a C++ byte-array header\<close>

text \<open>
  The repository is one function, \<open>png_to_cpp_array\<close>, of \<open>convert_image.py\<close>.
  It checks that the input path exists, reads the file as bytes, builds the header text in
  the variable \<open>header_content\<close> (a template, a loop over \<open>enumerate(png_data)\<close>, a
  second template), and writes the text inside a \<open>try\<close> block.

  A Python \<open>bytes\<close> value is a list of 8-bit words; text is \<open>string\<close>; Python's
  unbounded \<open>int\<close> for the loop index and the length is \<open>nat\<close>, with the one
  subtraction of the source (\<open>len(png_data) - 1\<close>) carried out in \<open>int\<close>.
\<close>

type_synonym byte = "8 word"

subsection \<open>Python's number formatting\<close>

text \<open>The digit characters used by the format types \<open>x\<close> and \<open>d\<close>.\<close>

definition hex_digit :: "nat \<Rightarrow> char" where
  "hex_digit d = ''0123456789abcdef'' ! d"

definition dec_digit :: "nat \<Rightarrow> char" where
  "dec_digit d = ''0123456789'' ! d"

text \<open>Format type \<open>x\<close>: lower-case hexadecimal, most significant digit first, no prefix.\<close>

fun hex_str :: "nat \<Rightarrow> string" where
  "hex_str n = (if n < 16 then [hex_digit n] else hex_str (n div 16) @ [hex_digit (n mod 16)])"

declare hex_str.simps [simp del]

text \<open>\<open>str(n)\<close> of a non-negative integer, as the f-string field \<open>{len(png_data)}\<close> gives it.\<close>

fun dec_str :: "nat \<Rightarrow> string" where
  "dec_str n = (if n < 10 then [dec_digit n] else dec_str (n div 10) @ [dec_digit (n mod 10)])"

declare dec_str.simps [simp del]

text \<open>The fill of a format specification \<open>0w\<close>: zeros on the left up to width \<open>w\<close>.\<close>

definition zero_pad :: "nat \<Rightarrow> string \<Rightarrow> string" where
  "zero_pad w s = replicate (w - length s) (CHR ''0'') @ s"

text \<open>The f-string field \<open>{byte:02x}\<close>.\<close>

definition format_02x :: "nat \<Rightarrow> string" where
  "format_02x n = zero_pad 2 (hex_str n)"

subsection \<open>The header text\<close>

text \<open>The literal \<open>0x{byte:02x}\<close> of line 29, without the comma that follows it there.\<close>

definition hex_literal :: "byte \<Rightarrow> string" where
  "hex_literal b = ''0x'' @ format_02x (unat b)"

text \<open>The string \<open>"\n    "\<close> of line 28: a line break and four spaces.\<close>

definition line_start :: string where
  "line_start = ''\<newline>    ''"

text \<open>
  The loop of lines 26 to 31. \<open>n\<close> is \<open>len(png_data)\<close>, \<open>i\<close> the index that
  \<open>enumerate\<close> supplies, the list the bytes not yet visited, \<open>hc\<close> the value of
  \<open>header_content\<close>.
\<close>

fun emit_bytes :: "nat \<Rightarrow> nat \<Rightarrow> byte list \<Rightarrow> string \<Rightarrow> string" where
  "emit_bytes n i [] hc = hc"
| "emit_bytes n i (b # bs) hc =
     (let hc1 = (if i mod 16 = 0 then hc @ line_start else hc);
          hc2 = hc1 @ hex_literal b @ '','';
          hc3 = (if int i < int n - 1 \<and> i mod 16 \<noteq> 15 then hc2 @ '' '' else hc2)
      in emit_bytes n (Suc i) bs hc3)"

text \<open>The first template (lines 16 to 23), with its two fields.\<close>

definition header_open :: "string \<Rightarrow> nat \<Rightarrow> string" where
  "header_open name n =
     ''#ifndef SPLASH_IMAGE_DATA_H\<newline>'' @
     ''#define SPLASH_IMAGE_DATA_H\<newline>'' @
     ''\<newline>'' @
     ''// Auto-generated from '' @ name @ ''\<newline>'' @
     ''// File size: '' @ dec_str n @ '' bytes\<newline>'' @
     ''\<newline>'' @
     ''const unsigned char SPLASH_IMAGE_DATA[] = {\<newline>''"

text \<open>The second template (lines 33 to 39), with its one field.\<close>

definition header_close :: "nat \<Rightarrow> string" where
  "header_close n =
     ''\<newline>'' @
     ''};\<newline>'' @
     ''\<newline>'' @
     ''const unsigned int SPLASH_IMAGE_SIZE = '' @ dec_str n @ '';\<newline>'' @
     ''\<newline>'' @
     ''#endif // SPLASH_IMAGE_DATA_H\<newline>''"

text \<open>The value of \<open>header_content\<close> when line 42 is reached.\<close>

definition header_content :: "string \<Rightarrow> byte list \<Rightarrow> string" where
  "header_content name png_data =
     emit_bytes (length png_data) 0 png_data (header_open name (length png_data))
       @ header_close (length png_data)"

text \<open>The array body: what the loop alone appends to \<open>header_content\<close>.\<close>

definition array_body :: "byte list \<Rightarrow> string" where
  "array_body png_data = emit_bytes (length png_data) 0 png_data []"

subsection \<open>The file system and the console\<close>

text \<open>
  The function's effects are kept in an explicit state. A path names nothing, a directory,
  or a regular file with its bytes and the two permissions that \<open>open\<close> consults.
  The console is the list of lines printed so far. Paths are POSIX paths made of ASCII
  characters and are taken as names: two spellings of one file are two names. The text is
  written in an ASCII-compatible encoding without newline translation, so a character of
  the text is one byte of the file. Directories carry no permissions and the device never
  runs full: \<open>open\<close> fails on an empty path, on a directory, on a file without the
  permission asked for, and on a new file whose parent directory is missing or is not a
  directory; a write, once opened, goes through.
\<close>

datatype fnode =
    RegularFile (content: "byte list") (readable: bool) (writable: bool)
  | Directory

record world =
  files :: "string \<Rightarrow> fnode option"
  console :: "string list"

text \<open>The exceptions that \<open>open\<close> raises in this model; all are subclasses of \<open>Exception\<close>.\<close>

datatype os_error =
  FileNotFoundError | IsADirectoryError | NotADirectoryError | PermissionError

text \<open>\<open>os.path.exists\<close>: true of files and directories alike.\<close>

definition path_exists :: "world \<Rightarrow> string \<Rightarrow> bool" where
  "path_exists w p = (files w p \<noteq> None)"

text \<open>
  \<open>os.path.dirname\<close>: what precedes the last slash, without the slashes it ends
  with, unless it consists of slashes only.
\<close>

definition dirname :: "string \<Rightarrow> string" where
  "dirname p =
     (let head = rev (dropWhile (\<lambda>c. c \<noteq> CHR ''/'') (rev p))
      in if list_all (\<lambda>c. c = CHR ''/'') head then head
         else rev (dropWhile (\<lambda>c. c = CHR ''/'') (rev head)))"

text \<open>\<open>os.path.basename\<close>: what follows the last slash.\<close>

definition basename :: "string \<Rightarrow> string" where
  "basename p = rev (takeWhile (\<lambda>c. c \<noteq> CHR ''/'') (rev p))"

text \<open>Lines 12 and 13: \<open>open(path, 'rb')\<close> followed by \<open>f.read()\<close>.\<close>

definition read_bytes :: "world \<Rightarrow> string \<Rightarrow> os_error + byte list" where
  "read_bytes w p =
     (case files w p of
        None \<Rightarrow> Inl FileNotFoundError
      | Some Directory \<Rightarrow> Inl IsADirectoryError
      | Some (RegularFile bs r wr) \<Rightarrow> if r then Inr bs else Inl PermissionError)"

definition encode :: "string \<Rightarrow> byte list" where
  "encode s = map of_char s"

text \<open>
  Lines 43 and 44: \<open>open(path, 'w')\<close> followed by \<open>f.write(text)\<close>. An existing
  file keeps its permissions and has its content replaced. A missing file is created when
  its parent directory exists; a name without a slash is created in the current directory,
  which always exists.
\<close>

definition write_text :: "world \<Rightarrow> string \<Rightarrow> string \<Rightarrow> os_error + world" where
  "write_text w p s =
     (if p = [] then Inl FileNotFoundError
      else
        case files w p of
          Some Directory \<Rightarrow> Inl IsADirectoryError
        | Some (RegularFile bs r wr) \<Rightarrow>
            if wr then Inr (w\<lparr>files := (files w)(p \<mapsto> RegularFile (encode s) r wr)\<rparr>)
            else Inl PermissionError
        | None \<Rightarrow>
            if dirname p = [] then
              Inr (w\<lparr>files := (files w)(p \<mapsto> RegularFile (encode s) True True)\<rparr>)
            else
              case files w (dirname p) of
                None \<Rightarrow> Inl FileNotFoundError
              | Some (RegularFile bs r wr) \<Rightarrow> Inl NotADirectoryError
              | Some Directory \<Rightarrow>
                  Inr (w\<lparr>files := (files w)(p \<mapsto> RegularFile (encode s) True True)\<rparr>))"

definition print :: "string \<Rightarrow> world \<Rightarrow> world" where
  "print s w = w\<lparr>console := console w @ [s]\<rparr>"

text \<open>
  \<open>repr\<close> of an ASCII string. The quote is the apostrophe, or the double quote when the
  string holds an apostrophe and no double quote. The quote in use and the backslash are
  escaped with a backslash; tab, line feed and carriage return are written \<open>\t\<close>,
  \<open>\n\<close> and \<open>\r\<close>; any other control character is written \<open>\xNN\<close>.
\<close>

definition repr_char :: "char \<Rightarrow> char \<Rightarrow> string" where
  "repr_char quote c =
     (if c = quote \<or> c = CHR 0x5C then [CHR 0x5C, c]
      else if c = CHR 0x09 then [CHR 0x5C, CHR ''t'']
      else if c = CHR 0x0A then [CHR 0x5C, CHR ''n'']
      else if c = CHR 0x0D then [CHR 0x5C, CHR ''r'']
      else if (of_char c :: nat) < 32 \<or> c = CHR 0x7F then [CHR 0x5C, CHR ''x''] @ format_02x (of_char c)
      else [c])"

definition py_repr :: "string \<Rightarrow> string" where
  "py_repr s =
     (let quote = (if CHR 0x27 \<in> set s \<and> CHR 0x22 \<notin> set s then CHR 0x22 else CHR 0x27)
      in [quote] @ concat (map (repr_char quote) s) @ [quote])"

text \<open>
  \<open>str(e)\<close> of an \<open>OSError\<close> raised by \<open>open\<close> on path \<open>p\<close>: the error number,
  the system's message for it, and \<open>repr\<close> of the path.
\<close>

fun error_text :: "os_error \<Rightarrow> string \<Rightarrow> string" where
  "error_text FileNotFoundError p = ''[Errno 2] No such file or directory: '' @ py_repr p"
| "error_text IsADirectoryError p = ''[Errno 21] Is a directory: '' @ py_repr p"
| "error_text NotADirectoryError p = ''[Errno 20] Not a directory: '' @ py_repr p"
| "error_text PermissionError p = ''[Errno 13] Permission denied: '' @ py_repr p"

subsection \<open>The function\<close>

text \<open>
  The result is \<open>Inr b\<close> when the function returns \<open>b\<close> and \<open>Inl e\<close> when the
  exception \<open>e\<close> leaves it. Only lines 43 to 47 are inside the \<open>try\<close>.
\<close>

definition png_to_cpp_array :: "string \<Rightarrow> string \<Rightarrow> world \<Rightarrow> (os_error + bool) \<times> world" where
  "png_to_cpp_array png_file_path output_header_path w =
     (if \<not> path_exists w png_file_path then
        (Inr False, print (''Error: PNG file not found: '' @ png_file_path) w)
      else
        case read_bytes w png_file_path of
          Inl e \<Rightarrow> (Inl e, w)
        | Inr png_data \<Rightarrow>
            (case write_text w output_header_path
                    (header_content (basename png_file_path) png_data) of
               Inr w' \<Rightarrow>
                 (Inr True,
                  print (''Image size: '' @ dec_str (length png_data) @ '' bytes'')
                    (print (''Successfully generated '' @ output_header_path) w'))
             | Inl e \<Rightarrow>
                 (Inr False,
                  print (''Error writing header file: '' @ error_text e output_header_path) w)))"

subsection \<open>Reading the header back\<close>

text \<open>
  The claims speak of lines, tokens and decoded bytes of the generated text. These
  functions are the reader's side: they take the text apart again.
\<close>

text \<open>\<open>s.split('\n')\<close>: the pieces between line breaks.\<close>

fun split_lines :: "string \<Rightarrow> string list" where
  "split_lines [] = [[]]"
| "split_lines (c # cs) =
     (if c = CHR 0x0A then [] # split_lines cs
      else (case split_lines cs of [] \<Rightarrow> [[c]] | l # ls \<Rightarrow> (c # l) # ls))"

definition is_space :: "char \<Rightarrow> bool" where
  "is_space c = (c = CHR '' '' \<or> c = CHR 0x0A)"

text \<open>\<open>s.split()\<close>: the maximal runs of characters other than blanks and line breaks.\<close>

fun tokens_from :: "string \<Rightarrow> string \<Rightarrow> string list" where
  "tokens_from cur [] = (if cur = [] then [] else [cur])"
| "tokens_from cur (c # cs) =
     (if is_space c then (if cur = [] then tokens_from [] cs else cur # tokens_from [] cs)
      else tokens_from (cur @ [c]) cs)"

definition tokens :: "string \<Rightarrow> string list" where
  "tokens s = tokens_from [] s"

text \<open>The value of a hexadecimal digit, lower case.\<close>

definition hex_value :: "char \<Rightarrow> nat option" where
  "hex_value c = map_of (zip ''0123456789abcdef'' [0, 1, 2, 3, 4, 5, 6, 7, 8, 9, 10, 11, 12, 13, 14, 15]) c"

text \<open>
  The decoder: scan the text, and wherever \<open>0x\<close> and two hexadecimal digits stand, read
  them as one byte.
\<close>

fun decode_body :: "string \<Rightarrow> byte list" where
  "decode_body (c0 # c1 # h # l # rest) =
     (case (c0 = CHR ''0'' \<and> c1 = CHR ''x'', hex_value h, hex_value l) of
        (True, Some a, Some b) \<Rightarrow> of_nat (16 * a + b) # decode_body rest
      | _ \<Rightarrow> decode_body (c1 # h # l # rest))"
| "decode_body _ = []"

text \<open>The value of a decimal digit string, as \<open>int(s)\<close> reads it.\<close>

definition dec_value :: "char \<Rightarrow> nat option" where
  "dec_value c = map_of (zip ''0123456789'' [0, 1, 2, 3, 4, 5, 6, 7, 8, 9]) c"

fun read_dec :: "nat \<Rightarrow> string \<Rightarrow> nat option" where
  "read_dec acc [] = Some acc"
| "read_dec acc (c # cs) =
     (case dec_value c of None \<Rightarrow> None | Some d \<Rightarrow> read_dec (10 * acc + d) cs)"

text \<open>
  The size constant of a header text: the text must end with the include-guard close
  preceded by \<open>;\<close>, and the digits before that \<open>;\<close>, back to the blank after \<open>=\<close>,
  are the constant.
\<close>

definition size_tail :: string where
  "size_tail = '';\<newline>\<newline>#endif // SPLASH_IMAGE_DATA_H\<newline>''"

definition size_head :: string where
  "size_head = ''const unsigned int SPLASH_IMAGE_SIZE = ''"

definition read_size_constant :: "string \<Rightarrow> nat option" where
  "read_size_constant s =
     (let k = length s - length size_tail;
          front = take k s;
          digits = rev (takeWhile (\<lambda>c. c \<noteq> CHR '' '') (rev front));
          lead = take (length front - length digits) front
      in if length size_tail \<le> length s \<and> drop k s = size_tail \<and> digits \<noteq> []
            \<and> length size_head \<le> length lead
            \<and> drop (length lead - length size_head) lead = size_head
         then read_dec 0 digits else None)"

subsection \<open>The layout in closed form\<close>

text \<open>Groups of sixteen consecutive elements; the last group may be shorter.\<close>

fun chunks16 :: "'a list \<Rightarrow> 'a list list" where
  "chunks16 [] = []"
| "chunks16 (x # xs) = take 16 (x # xs) # chunks16 (drop 15 xs)"

text \<open>\<open>" ".join(ss)\<close>.\<close>

fun join_sp :: "string list \<Rightarrow> string" where
  "join_sp [] = []"
| "join_sp [s] = s"
| "join_sp (s # t # ss) = s @ '' '' @ join_sp (t # ss)"

text \<open>One payload line: the indentation, then the literals, each with its comma.\<close>

definition payload_line :: "byte list \<Rightarrow> string" where
  "payload_line c = ''    '' @ join_sp (map (\<lambda>b. hex_literal b @ '','') c)"

subsection \<open>The output format of the specification\<close>

text \<open>\<open>sep.join(ss)\<close>.\<close>

fun join_with :: "string \<Rightarrow> string list \<Rightarrow> string" where
  "join_with sep [] = []"
| "join_with sep [s] = s"
| "join_with sep (s # t # ss) = s @ sep @ join_with sep (t # ss)"

text \<open>
  Section 6 of the specification gives the output format as a template whose payload is
  described by the words "16 per line, comma+space separated, no trailing comma on final
  byte". \<open>spec_header\<close> is that template taken literally: the payload lines follow the
  array declaration line directly, the literals of a line are separated by a comma and a
  blank, a line that is not the last ends with a comma, and the last line ends with its
  last literal.
\<close>

fun spec_lines :: "byte list list \<Rightarrow> string list" where
  "spec_lines [] = []"
| "spec_lines [c] = [''    '' @ join_with '', '' (map hex_literal c)]"
| "spec_lines (c # d # cs) = (''    '' @ join_with '', '' (map hex_literal c) @ '','') # spec_lines (d # cs)"

definition spec_header :: "string \<Rightarrow> byte list \<Rightarrow> string" where
  "spec_header name data =
     ''#ifndef SPLASH_IMAGE_DATA_H\<newline>'' @
     ''#define SPLASH_IMAGE_DATA_H\<newline>'' @
     ''\<newline>'' @
     ''// Auto-generated from '' @ name @ ''\<newline>'' @
     ''// File size: '' @ dec_str (length data) @ '' bytes\<newline>'' @
     ''\<newline>'' @
     ''const unsigned char SPLASH_IMAGE_DATA[] = {\<newline>'' @
     concat (map (\<lambda>l. l @ ''\<newline>'') (spec_lines (chunks16 data))) @
     ''};\<newline>'' @
     ''\<newline>'' @
     ''const unsigned int SPLASH_IMAGE_SIZE = '' @ dec_str (length data) @ '';\<newline>'' @
     ''\<newline>'' @
     ''#endif // SPLASH_IMAGE_DATA_H\<newline>''"

text \<open>
  The layout that the function produces, in the same form: an empty line stands between
  the array declaration line and the payload, and every literal, the last one included,
  carries its comma.
\<close>

definition header_layout :: "string \<Rightarrow> byte list \<Rightarrow> string" where
  "header_layout name data =
     ''#ifndef SPLASH_IMAGE_DATA_H\<newline>'' @
     ''#define SPLASH_IMAGE_DATA_H\<newline>'' @
     ''\<newline>'' @
     ''// Auto-generated from '' @ name @ ''\<newline>'' @
     ''// File size: '' @ dec_str (length data) @ '' bytes\<newline>'' @
     ''\<newline>'' @
     ''const unsigned char SPLASH_IMAGE_DATA[] = {\<newline>'' @
     ''\<newline>'' @
     concat (map (\<lambda>c. ''    '' @ join_with '' '' (map (\<lambda>b. hex_literal b @ '','') c) @ ''\<newline>'')
               (chunks16 data)) @
     ''};\<newline>'' @
     ''\<newline>'' @
     ''const unsigned int SPLASH_IMAGE_SIZE = '' @ dec_str (length data) @ '';\<newline>'' @
     ''\<newline>'' @
     ''#endif // SPLASH_IMAGE_DATA_H\<newline>''"

subsection \<open>A sample file system\<close>

text \<open>One readable input file of one byte, and no output file yet.\<close>

definition sample_world :: world where
  "sample_world = \<lparr>files = [''in.png'' \<mapsto> RegularFile [0x89] True True], console = []\<rparr>"

subsection \<open>Definitions used by the proofs\<close>

text \<open>What one pass of the loop body appends to \<open>header_content\<close>.\<close>

definition step_text :: "nat \<Rightarrow> nat \<Rightarrow> byte \<Rightarrow> string" where
  "step_text n i b =
     (if i mod 16 = 0 then line_start else []) @ hex_literal b @ '','' @
     (if int i < int n - 1 \<and> i mod 16 \<noteq> 15 then '' '' else [])"

text \<open>
  A scan of a text: after each comma comes a line break, or one blank and then a character
  that is not a blank, or nothing at all.
\<close>

fun commas_spaced :: "string \<Rightarrow> bool" where
  "commas_spaced (c # d # s) =
     ((if c = CHR '','' then d = CHR 0x0A \<or> (d = CHR '' '' \<and> (case s of [] \<Rightarrow> False | e # _ \<Rightarrow> e \<noteq> CHR '' ''))
       else True) \<and> commas_spaced (d # s))"
| "commas_spaced _ = True"

section \<open>Properties of the loop\<close>

lemma emit_bytes_step: "emit_bytes n i (b # bs) hc = emit_bytes n (Suc i) bs (hc @ step_text n i b)"
  by (simp add: step_text_def Let_def)

declare emit_bytes.simps(2) [simp del]

lemma emit_bytes_acc: "emit_bytes n i bs hc = hc @ emit_bytes n i bs []"
proof (induction bs arbitrary: i hc)
  case Nil
  show ?case by simp
next
  case (Cons b bs)
  have "emit_bytes n i (b # bs) hc = emit_bytes n (Suc i) bs (hc @ step_text n i b)"
    by (rule emit_bytes_step)
  also have "\<dots> = (hc @ step_text n i b) @ emit_bytes n (Suc i) bs []"
    by (rule Cons.IH)
  also have "\<dots> = hc @ emit_bytes n (Suc i) bs ([] @ step_text n i b)"
    using Cons.IH [of "Suc i" "[] @ step_text n i b"] by simp
  also have "\<dots> = hc @ emit_bytes n i (b # bs) []"
    by (simp only: emit_bytes_step)
  finally show ?case .
qed

lemma emit_bytes_Cons: "emit_bytes n i (b # bs) [] = step_text n i b @ emit_bytes n (Suc i) bs []"
  using emit_bytes_acc [of n "Suc i" bs "step_text n i b"] emit_bytes_step [of n i b bs "[]"]
  by simp

lemma emit_bytes_append:
  "emit_bytes n i (xs @ ys) [] = emit_bytes n i xs [] @ emit_bytes n (i + length xs) ys []"
proof (induction xs arbitrary: i)
  case Nil
  show ?case by simp
next
  case (Cons x xs)
  show ?case
    using Cons.IH [of "Suc i"] by (simp only: append_Cons emit_bytes_Cons append_assoc list.size) simp
qed

lemma format_02x_byte:
  assumes "n < 256"
  shows "format_02x n = [hex_digit (n div 16), hex_digit (n mod 16)]"
proof (cases "n < 16")
  case True
  then have "hex_str n = [hex_digit n]" by (simp add: hex_str.simps)
  with True show ?thesis by (simp add: format_02x_def zero_pad_def hex_digit_def)
next
  case False
  with assms have d: "n div 16 < 16" by simp
  from False have "hex_str n = hex_str (n div 16) @ [hex_digit (n mod 16)]"
    by (subst hex_str.simps) simp
  also from d have "hex_str (n div 16) = [hex_digit (n div 16)]"
    by (subst hex_str.simps) simp
  finally show ?thesis by (simp add: format_02x_def zero_pad_def)
qed

lemma unat_byte_less: "unat (b :: byte) < 256"
  using unsigned_less [of b, where ?'a = nat] by simp

lemma hex_literal_chars:
  "hex_literal b = [CHR ''0'', CHR ''x'', hex_digit (unat b div 16), hex_digit (unat b mod 16)]"
  by (simp add: hex_literal_def format_02x_byte unat_byte_less)

lemma join_sp_Cons: "join_sp (s # ss) = s @ (if ss = [] then [] else '' '' @ join_sp ss)"
  by (cases ss) simp_all

lemma emit_within_line:
  assumes "i mod 16 = 0"
  shows "k + length ys \<le> 16 \<Longrightarrow> i + k + length ys \<le> n \<Longrightarrow>
         k + length ys = 16 \<or> i + k + length ys = n \<Longrightarrow>
         emit_bytes n (i + k) ys [] =
           (if k = 0 \<and> ys \<noteq> [] then line_start else []) @ join_sp (map (\<lambda>b. hex_literal b @ '','') ys)"
proof (induction ys arbitrary: k)
  case Nil
  show ?case by simp
next
  case (Cons y ys)
  from Cons.prems have k: "k < 16" by simp
  with assms have m: "(i + k) mod 16 = k"
    by (metis mod_add_left_eq add_0 mod_less)
  have sp: "(int (i + k) < int n - 1 \<and> k \<noteq> 15) = (ys \<noteq> [])"
  proof (cases ys)
    case Nil
    with Cons.prems show ?thesis by auto
  next
    case (Cons z zs)
    with Cons.prems show ?thesis by auto
  qed
  have st: "step_text n (i + k) y =
      (if k = 0 then line_start else []) @ hex_literal y @ '','' @ (if ys \<noteq> [] then '' '' else [])"
    unfolding step_text_def m sp by simp
  have ih: "emit_bytes n (i + Suc k) ys [] = join_sp (map (\<lambda>b. hex_literal b @ '','') ys)"
    using Cons.IH [of "Suc k"] Cons.prems by simp
  have "emit_bytes n (i + k) (y # ys) [] = step_text n (i + k) y @ emit_bytes n (i + Suc k) ys []"
    by (simp add: emit_bytes_Cons)
  then show ?case
    unfolding st ih by (simp add: join_sp_Cons)
qed

lemma emit_line:
  assumes "i mod 16 = 0" "c \<noteq> []" "length c \<le> 16" "i + length c \<le> n"
    "length c = 16 \<or> i + length c = n"
  shows "emit_bytes n i c [] = CHR 0x0A # payload_line c"
  using emit_within_line [OF assms(1), of 0 c n] assms
  by (simp add: payload_line_def line_start_def)

lemma emit_chunks:
  "i mod 16 = 0 \<Longrightarrow> i + length bs = n \<Longrightarrow>
   emit_bytes n i bs [] = concat (map (\<lambda>c. CHR 0x0A # payload_line c) (chunks16 bs))"
proof (induction bs arbitrary: i rule: chunks16.induct)
  case 1
  show ?case by simp
next
  case (2 x xs)
  let ?c = "take 16 (x # xs)" and ?r = "drop 15 xs"
  have split: "x # xs = ?c @ ?r" by simp
  have c: "?c \<noteq> []" "length ?c \<le> 16" "i + length ?c \<le> n" "length ?c = 16 \<or> i + length ?c = n"
    using "2.prems" by auto
  have line: "emit_bytes n i ?c [] = CHR 0x0A # payload_line ?c"
    using emit_line [OF "2.prems"(1) c] .
  have rest: "emit_bytes n (i + length ?c) ?r [] =
      concat (map (\<lambda>c. CHR 0x0A # payload_line c) (chunks16 ?r))"
  proof (cases "?r = []")
    case True
    then show ?thesis by simp
  next
    case False
    then have len: "length ?c = 16" by auto
    have "(i + 16) mod 16 = 0" using "2.prems"(1) by simp
    moreover have "i + 16 + length ?r = n" using "2.prems"(2) False by auto
    ultimately show ?thesis using "2.IH" [of "i + 16"] len by simp
  qed
  have "emit_bytes n i (x # xs) [] = emit_bytes n i (?c @ ?r) []"
    using split by simp
  also have "\<dots> = emit_bytes n i ?c [] @ emit_bytes n (i + length ?c) ?r []"
    by (rule emit_bytes_append)
  finally show ?case
    unfolding line rest by simp
qed

lemma array_body_chunks:
  "array_body data = concat (map (\<lambda>c. CHR 0x0A # payload_line c) (chunks16 data))"
  unfolding array_body_def by (rule emit_chunks) simp_all

lemma nat_less_16_cases:
  "d < 16 \<Longrightarrow> d \<in> {0, 1, 2, 3, 4, 5, 6, 7, 8, 9, 10, 11, 12, 13, 14, 15::nat}"
proof -
  assume "d < 16"
  then have "d \<in> set [0..<16]" by simp
  also have "[0..<16] = [0, 1, 2, 3, 4, 5, 6, 7, 8, 9, 10, 11, 12, 13, 14, 15::nat]"
    by (simp add: upt_rec)
  finally show ?thesis by simp
qed

lemma hex_value_hex_digit: "d < 16 \<Longrightarrow> hex_value (hex_digit d) = Some d"
  using nat_less_16_cases [of d] by (auto simp: hex_value_def hex_digit_def)

lemma hex_digit_not_space: "d < 16 \<Longrightarrow> \<not> is_space (hex_digit d)"
  using nat_less_16_cases [of d] by (auto simp: is_space_def hex_digit_def)

lemma hex_digit_not_nl: "d < 16 \<Longrightarrow> hex_digit d \<noteq> CHR 0x0A"
  using nat_less_16_cases [of d] by (auto simp: hex_digit_def)

lemma hex_digit_not_comma: "d < 16 \<Longrightarrow> hex_digit d \<noteq> CHR '',''"
  using nat_less_16_cases [of d] by (auto simp: hex_digit_def)

lemma hex_digit_in: "d < 16 \<Longrightarrow> hex_digit d \<in> set ''0123456789abcdef''"
  using nat_less_16_cases [of d] by (auto simp: hex_digit_def)

lemma decode_body_skip: "c \<noteq> CHR ''0'' \<Longrightarrow> decode_body (c # s) = decode_body s"
proof -
  assume c: "c \<noteq> CHR ''0''"
  show ?thesis
  proof (cases s)
    case Nil
    then show ?thesis by simp
  next
    case s1: (Cons c1 s1)
    show ?thesis
    proof (cases s1)
      case Nil
      with s1 show ?thesis by simp
    next
      case s2: (Cons h s2)
      show ?thesis
      proof (cases s2)
        case Nil
        with s1 s2 show ?thesis by simp
      next
        case (Cons l rest)
        with s1 s2 c show ?thesis by simp
      qed
    qed
  qed
qed

lemma byte_of_nibbles: "(of_nat (16 * (unat b div 16) + unat b mod 16) :: byte) = b"
  by simp

lemma decode_body_literal:
  "decode_body (hex_literal b @ rest) = b # decode_body rest"
proof -
  have "unat b div 16 < 16" using unat_byte_less [of b] by simp
  moreover have "unat b mod 16 < 16" by simp
  ultimately show ?thesis
    by (simp add: hex_literal_chars hex_value_hex_digit byte_of_nibbles del: of_nat_add of_nat_mult)
qed

lemma decode_body_step: "decode_body (step_text n i b @ rest) = b # decode_body rest"
  by (simp add: step_text_def line_start_def decode_body_skip decode_body_literal)

lemma decode_body_emit: "decode_body (emit_bytes n i bs []) = bs"
proof (induction bs arbitrary: i)
  case Nil
  show ?case by simp
next
  case (Cons b bs)
  then show ?case by (simp add: emit_bytes_Cons decode_body_step)
qed

lemma tokens_from_word:
  "list_all (\<lambda>c. \<not> is_space c) t \<Longrightarrow> tokens_from cur (t @ s) = tokens_from (cur @ t) s"
  by (induction t arbitrary: cur) simp_all

lemma lit_no_space: "list_all (\<lambda>c. \<not> is_space c) (hex_literal b @ '','')"
proof -
  have "unat b div 16 < 16" using unat_byte_less [of b] by simp
  moreover have "unat b mod 16 < 16" by simp
  ultimately show ?thesis
    by (simp add: hex_literal_chars hex_digit_not_space) (simp add: is_space_def)
qed

lemma lit_not_Nil: "hex_literal b @ '','' \<noteq> []"
  by simp

lemma tokens_from_lit_end: "tokens_from [] (hex_literal b @ '','') = [hex_literal b @ '','']"
  using tokens_from_word [OF lit_no_space, of "[]" b "[]"] by simp

lemma tokens_from_lit_space:
  "is_space c \<Longrightarrow> tokens_from [] ((hex_literal b @ '','') @ c # s) = (hex_literal b @ '','') # tokens_from [] s"
  using tokens_from_word [OF lit_no_space, of "[]" b "c # s"] by simp

lemma tokens_from_spaces:
  "list_all is_space t \<Longrightarrow> tokens_from [] (t @ s) = tokens_from [] s"
  by (induction t) simp_all

lemma tokens_join_sp:
  "tokens_from [] (join_sp (map (\<lambda>b. hex_literal b @ '','') c)) = map (\<lambda>b. hex_literal b @ '','') c"
proof (induction c)
  case Nil
  show ?case by simp
next
  case (Cons b c)
  show ?case
  proof (cases c)
    case Nil
    then show ?thesis using tokens_from_lit_end by simp
  next
    case (Cons b' c')
    have "tokens_from [] ((hex_literal b @ '','') @ CHR '' '' # join_sp (map (\<lambda>b. hex_literal b @ '','') c))
        = (hex_literal b @ '','') # tokens_from [] (join_sp (map (\<lambda>b. hex_literal b @ '','') c))"
      by (rule tokens_from_lit_space) (simp add: is_space_def)
    with Cons Cons.IH show ?thesis by simp
  qed
qed

lemma tokens_payload_line: "tokens (payload_line c) = map (\<lambda>b. hex_literal b @ '','') c"
proof -
  have "list_all is_space ''    ''" by (simp add: is_space_def)
  from tokens_from_spaces [OF this] show ?thesis
    unfolding tokens_def payload_line_def by (simp only: tokens_join_sp)
qed

lemma tokens_from_append:
  "tokens_from [] (s @ CHR 0x0A # t) = tokens_from [] s @ tokens_from [] (CHR 0x0A # t)"
proof -
  have "tokens_from cur (s @ CHR 0x0A # t) = tokens_from cur s @ tokens_from [] (CHR 0x0A # t)" for cur
    by (induction s arbitrary: cur) (simp_all add: is_space_def)
  then show ?thesis .
qed

lemma tokens_lines:
  "tokens_from [] (concat (map (\<lambda>c. CHR 0x0A # payload_line c) cs))
     = concat (map (\<lambda>c. map (\<lambda>b. hex_literal b @ '','') c) cs)"
proof (induction cs)
  case Nil
  show ?case by simp
next
  case (Cons c cs)
  have nl: "tokens_from [] (CHR 0x0A # s) = tokens_from [] s" for s
    by (simp add: is_space_def)
  have one: "tokens_from [] (payload_line c) = map (\<lambda>b. hex_literal b @ '','') c"
    using tokens_payload_line [of c] by (simp add: tokens_def)
  show ?case
  proof (cases cs)
    case Nil
    then show ?thesis by (simp add: is_space_def one)
  next
    case (Cons d ds)
    have "tokens_from [] (payload_line c @ CHR 0x0A # payload_line d @ concat (map (\<lambda>c. CHR 0x0A # payload_line c) ds))
       = tokens_from [] (payload_line c) @ tokens_from [] (CHR 0x0A # payload_line d @ concat (map (\<lambda>c. CHR 0x0A # payload_line c) ds))"
      by (rule tokens_from_append)
    with Cons Cons.IH show ?thesis by (simp add: is_space_def one)
  qed
qed

lemma concat_chunks16: "concat (chunks16 xs) = xs"
  by (induction xs rule: chunks16.induct) simp_all

lemma tokens_array_body: "tokens (array_body data) = map (\<lambda>b. hex_literal b @ '','') data"
proof -
  have "tokens (array_body data) = concat (map (map (\<lambda>b. hex_literal b @ '','')) (chunks16 data))"
    unfolding tokens_def array_body_chunks by (rule tokens_lines)
  also have "\<dots> = map (\<lambda>b. hex_literal b @ '','') (concat (chunks16 data))"
    by (simp add: map_concat)
  finally show ?thesis by (simp add: concat_chunks16)
qed

lemma split_lines_not_Nil: "split_lines s \<noteq> []"
  by (induction s) (auto split: list.splits)

lemma split_lines_no_nl: "CHR 0x0A \<notin> set l \<Longrightarrow> split_lines l = [l]"
  by (induction l) auto

lemma split_lines_append:
  "CHR 0x0A \<notin> set l \<Longrightarrow> split_lines (l @ CHR 0x0A # s) = l # split_lines s"
  by (induction l) auto

lemma split_lines_concat:
  "list_all (\<lambda>l. CHR 0x0A \<notin> set l) ls \<Longrightarrow> CHR 0x0A \<notin> set l \<Longrightarrow>
   split_lines (l @ concat (map (\<lambda>l. CHR 0x0A # l) ls)) = l # ls"
proof (induction ls arbitrary: l)
  case Nil
  then show ?case by (simp add: split_lines_no_nl)
next
  case (Cons m ls)
  then have "split_lines (m @ concat (map (\<lambda>l. CHR 0x0A # l) ls)) = m # ls" by simp
  with Cons.prems show ?case by (simp add: split_lines_append)
qed

lemma lit_no_nl: "CHR 0x0A \<notin> set (hex_literal b @ '','')"
proof -
  have "unat b div 16 < 16" using unat_byte_less [of b] by simp
  moreover have "unat b mod 16 < 16" by simp
  ultimately have "hex_digit (unat b div 16) \<noteq> CHR 0x0A" "hex_digit (unat b mod 16) \<noteq> CHR 0x0A"
    by (simp_all add: hex_digit_not_nl)
  then show ?thesis
    by (auto simp add: hex_literal_chars)
qed

lemma join_sp_no_nl: "CHR 0x0A \<notin> set (join_sp (map (\<lambda>b. hex_literal b @ '','') c))"
proof (induction c)
  case Nil
  show ?case by simp
next
  case (Cons b c)
  have "CHR 0x0A \<notin> set (hex_literal b @ '','')" by (rule lit_no_nl)
  with Cons show ?case by (simp only: list.map join_sp_Cons) (auto split: if_splits)
qed

lemma payload_line_no_nl: "CHR 0x0A \<notin> set (payload_line c)"
  using join_sp_no_nl [of c] by (simp add: payload_line_def)

lemma split_lines_array_body:
  "split_lines (array_body data) = [] # map payload_line (chunks16 data)"
proof -
  have "list_all (\<lambda>l. CHR 0x0A \<notin> set l) (map payload_line (chunks16 data))"
    by (simp add: list_all_iff payload_line_no_nl)
  from split_lines_concat [OF this, of "[]"] show ?thesis
    by (simp add: array_body_chunks comp_def map_concat)
qed

lemma length_chunks16: "length (chunks16 xs) = (length xs + 15) div 16"
proof (induction xs rule: chunks16.induct)
  case 1
  show ?case by simp
next
  case (2 x xs)
  then show ?case by (simp add: div_if)
qed

lemma lengths_chunks16:
  "map length (chunks16 xs) =
     replicate (length xs div 16) 16 @ (if length xs mod 16 = 0 then [] else [length xs mod 16])"
proof (induction xs rule: chunks16.induct)
  case 1
  show ?case by simp
next
  case (2 x xs)
  show ?case
  proof (cases "length xs < 15")
    case True
    then show ?thesis by simp
  next
    case False
    then have l: "length (x # xs) = length (drop 15 xs) + 16" by simp
    have "map length (chunks16 (x # xs)) = 16 # map length (chunks16 (drop 15 xs))"
      using False by simp
    also have "\<dots> = 16 # replicate (length (drop 15 xs) div 16) 16 @
        (if length (drop 15 xs) mod 16 = 0 then [] else [length (drop 15 xs) mod 16])"
      by (simp only: "2.IH")
    also have "\<dots> = replicate (length (x # xs) div 16) 16 @
        (if length (x # xs) mod 16 = 0 then [] else [length (x # xs) mod 16])"
    proof -
      have "(k + 16) div 16 = Suc (k div 16)" for k :: nat by simp
      then have d: "length (x # xs) div 16 = Suc (length (drop 15 xs) div 16)"
        by (simp only: l)
      have "(k + 16) mod 16 = k mod 16" for k :: nat by simp
      then have m: "length (x # xs) mod 16 = length (drop 15 xs) mod 16"
        by (simp only: l)
      show ?thesis by (simp only: d m replicate_Suc append_Cons)
    qed
    finally show ?thesis .
  qed
qed

lemma nat_less_10_cases:
  "d < 10 \<Longrightarrow> d \<in> {0, 1, 2, 3, 4, 5, 6, 7, 8, 9::nat}"
proof -
  assume "d < 10"
  then have "d \<in> set [0..<10]" by simp
  also have "[0..<10] = [0, 1, 2, 3, 4, 5, 6, 7, 8, 9::nat]"
    by (simp add: upt_rec)
  finally show ?thesis by simp
qed

lemma dec_value_dec_digit: "d < 10 \<Longrightarrow> dec_value (dec_digit d) = Some d"
  using nat_less_10_cases [of d] by (auto simp: dec_value_def dec_digit_def)

lemma dec_digit_not_blank: "d < 10 \<Longrightarrow> dec_digit d \<noteq> CHR '' ''"
  using nat_less_10_cases [of d] by (auto simp: dec_digit_def)

lemma read_dec_snoc:
  "d < 10 \<Longrightarrow> read_dec acc (s @ [dec_digit d]) = map_option (\<lambda>v. 10 * v + d) (read_dec acc s)"
  by (induction s arbitrary: acc) (simp_all add: dec_value_dec_digit split: option.splits)

lemma read_dec_dec_str: "read_dec 0 (dec_str n) = Some n"
proof (induction n rule: dec_str.induct)
  case (1 n)
  show ?case
  proof (cases "n < 10")
    case True
    then show ?thesis by (simp add: dec_str.simps [of n] dec_value_dec_digit)
  next
    case False
    then have "read_dec 0 (dec_str (n div 10)) = Some (n div 10)" by (rule "1.IH")
    with False show ?thesis
      by (simp add: dec_str.simps [of n] read_dec_snoc)
  qed
qed

lemma dec_str_no_blank: "CHR '' '' \<notin> set (dec_str n)"
proof (induction n rule: dec_str.induct)
  case (1 n)
  show ?case
  proof (cases "n < 10")
    case True
    then show ?thesis using dec_digit_not_blank [of n] by (auto simp add: dec_str.simps [of n])
  next
    case False
    then have "CHR '' '' \<notin> set (dec_str (n div 10))" by (rule "1.IH")
    moreover have "dec_digit (n mod 10) \<noteq> CHR '' ''" by (simp add: dec_digit_not_blank)
    ultimately show ?thesis using False
      by (auto simp add: dec_str.simps [of n])
  qed
qed

lemma dec_str_not_Nil: "dec_str n \<noteq> []"
  by (subst dec_str.simps) simp

lemma read_size_constant_frame:
  "read_size_constant (x @ size_head @ dec_str n @ size_tail) = Some n"
proof -
  let ?s = "x @ size_head @ dec_str n @ size_tail"
  have k: "length ?s - length size_tail = length (x @ size_head @ dec_str n)" by simp
  have front: "take (length ?s - length size_tail) ?s = x @ size_head @ dec_str n"
    unfolding k by (metis append_assoc append_eq_conv_conj)
  have tl: "drop (length ?s - length size_tail) ?s = size_tail"
    unfolding k by (metis append_assoc append_eq_conv_conj)
  have "takeWhile (\<lambda>c. c \<noteq> CHR '' '') (rev (dec_str n) @ (rev size_head @ rev x))
      = rev (dec_str n) @ takeWhile (\<lambda>c. c \<noteq> CHR '' '') (rev size_head @ rev x)"
    by (rule takeWhile_append2) (use dec_str_no_blank [of n] in auto)
  moreover have "takeWhile (\<lambda>c. c \<noteq> CHR '' '') (rev size_head @ rev x) = []"
    by (simp add: size_head_def)
  ultimately have tw: "takeWhile (\<lambda>c. c \<noteq> CHR '' '') (rev (x @ size_head @ dec_str n)) = rev (dec_str n)"
    by simp
  have lead: "take (length (x @ size_head @ dec_str n) - length (dec_str n)) (x @ size_head @ dec_str n)
      = x @ size_head"
    by simp
  have dl: "drop (length (x @ size_head) - length size_head) (x @ size_head) = size_head"
    by simp
  show ?thesis
    unfolding read_size_constant_def Let_def front tl tw rev_rev_ident lead dl
    by (simp add: dec_str_not_Nil read_dec_dec_str)
qed

lemma header_content_split:
  "header_content name data =
     header_open name (length data) @ array_body data @ header_close (length data)"
  unfolding header_content_def array_body_def
  using emit_bytes_acc [of "length data" 0 data "header_open name (length data)"] by simp

lemma header_close_frame:
  "header_close n = ''\<newline>};\<newline>\<newline>'' @ size_head @ dec_str n @ size_tail"
  by (simp add: header_close_def size_head_def size_tail_def)

lemma read_size_constant_header: "read_size_constant (header_content name data) = Some (length data)"
proof -
  have "header_content name data =
      (header_open name (length data) @ array_body data @ ''\<newline>};\<newline>\<newline>'')
        @ size_head @ dec_str (length data) @ size_tail"
    by (simp add: header_content_split header_close_frame)
  then show ?thesis by (simp only: read_size_constant_frame)
qed

lemma commas_spaced_skip: "c \<noteq> CHR '','' \<Longrightarrow> commas_spaced (c # s) = commas_spaced s"
  by (cases s) simp_all

lemma commas_spaced_tl: "commas_spaced (c # s) \<Longrightarrow> commas_spaced s"
  by (cases s) simp_all

lemma commas_spaced_split:
  "commas_spaced s \<Longrightarrow> s = pre @ CHR '','' # post \<Longrightarrow>
   post = [] \<or> hd post = CHR 0x0A \<or> (\<exists>e r. post = CHR '' '' # e # r \<and> e \<noteq> CHR '' '')"
proof (induction pre arbitrary: s)
  case Nil
  show ?case
  proof (cases post)
    case Nil
    then show ?thesis by simp
  next
    case (Cons d s')
    with Nil.prems show ?thesis by (cases s') (simp_all split: if_splits)
  qed
next
  case (Cons p pre)
  from Cons.prems have "commas_spaced (p # (pre @ CHR '','' # post))" by simp
  then have "commas_spaced (pre @ CHR '','' # post)" by (rule commas_spaced_tl)
  then show ?case by (rule Cons.IH) simp
qed

lemma commas_spaced_literal:
  "commas_spaced (hex_literal b @ s) = commas_spaced s"
proof -
  have "unat b div 16 < 16" using unat_byte_less [of b] by simp
  moreover have "unat b mod 16 < 16" by simp
  ultimately show ?thesis
    by (simp add: hex_literal_chars commas_spaced_skip hex_digit_not_comma)
qed

lemma emit_bytes_head:
  "\<exists>t. emit_bytes n i (b # bs) [] = (if i mod 16 = 0 then CHR 0x0A # t else CHR ''0'' # t)"
  by (simp add: emit_bytes_Cons step_text_def line_start_def hex_literal_chars)

lemma commas_spaced_emit:
  "i + length bs = n \<Longrightarrow> commas_spaced (emit_bytes n i bs [])"
proof (induction bs arbitrary: i)
  case Nil
  show ?case by simp
next
  case (Cons b bs)
  let ?rest = "emit_bytes n (Suc i) bs []"
  have rest: "commas_spaced ?rest" using Cons.prems by (intro Cons.IH) simp
  have tail: "commas_spaced (CHR '','' # (if int i < int n - 1 \<and> i mod 16 \<noteq> 15 then '' '' else []) @ ?rest)"
  proof (cases bs)
    case Nil
    with Cons.prems show ?thesis by simp
  next
    case bs: (Cons b' bs')
    with Cons.prems have lt: "int i < int n - 1" by simp
    obtain t where t: "?rest = (if Suc i mod 16 = 0 then CHR 0x0A # t else CHR ''0'' # t)"
      using emit_bytes_head [of n "Suc i" b' bs'] bs by auto
    show ?thesis
    proof (cases "i mod 16 = 15")
      case True
      then have "Suc i mod 16 = 0" by presburger
      with t have "?rest = CHR 0x0A # t" by simp
      with rest True show ?thesis by simp
    next
      case False
      then have "Suc i mod 16 \<noteq> 0" by presburger
      with t have r: "?rest = CHR ''0'' # t" by simp
      have "commas_spaced (CHR '','' # CHR '' '' # CHR ''0'' # t)"
        using rest unfolding r by simp
      with lt False r show ?thesis by simp
    qed
  qed
  have "emit_bytes n i (b # bs) [] =
      (if i mod 16 = 0 then line_start else []) @ hex_literal b @
        (CHR '','' # (if int i < int n - 1 \<and> i mod 16 \<noteq> 15 then '' '' else []) @ ?rest)"
    by (simp add: emit_bytes_Cons step_text_def)
  moreover have "commas_spaced ((if i mod 16 = 0 then line_start else []) @ hex_literal b @ u) = commas_spaced u" for u
    by (simp add: line_start_def commas_spaced_skip commas_spaced_literal)
  ultimately show ?case using tail by simp
qed

lemma emit_bytes_last:
  "\<exists>pre. emit_bytes (i + Suc (length bs)) i (bs @ [b]) [] = pre @ hex_literal b @ '',''"
proof -
  have "emit_bytes (i + Suc (length bs)) i (bs @ [b]) [] =
      emit_bytes (i + Suc (length bs)) i bs [] @ step_text (i + Suc (length bs)) (i + length bs) b"
    using emit_bytes_append [of "i + Suc (length bs)" i bs "[b]"] by (simp add: emit_bytes_Cons)
  moreover have "step_text (i + Suc (length bs)) (i + length bs) b =
      (if (i + length bs) mod 16 = 0 then line_start else []) @ hex_literal b @ '',''"
    by (simp add: step_text_def)
  ultimately show ?thesis by (metis append_assoc)
qed

lemma array_body_last:
  assumes "data \<noteq> []"
  shows "\<exists>pre. array_body data = pre @ hex_literal (last data) @ '',''"
proof -
  from assms have d: "data = butlast data @ [last data]" by simp
  have "length data = 0 + Suc (length (butlast data))" using assms by simp
  with emit_bytes_last [of 0 "butlast data" "last data"] d show ?thesis
    unfolding array_body_def by metis
qed

lemma array_body_commas:
  "array_body data = pre @ CHR '','' # post \<Longrightarrow>
   post = [] \<or> hd post = CHR 0x0A \<or> (\<exists>e r. post = CHR '' '' # e # r \<and> e \<noteq> CHR '' '')"
  using commas_spaced_emit [of 0 data "length data"] commas_spaced_split
  unfolding array_body_def by auto

lemma body_one_byte: "array_body [b] = ''\<newline>    '' @ hex_literal b @ '',''"
  by (simp add: array_body_def emit_bytes_Cons step_text_def line_start_def)

lemma hex_literal_0x89: "hex_literal 0x89 = ''0x89''"
  by (simp add: hex_literal_chars hex_digit_def)

lemma body_two_bytes: "array_body [0x01, 0x02] = ''\<newline>    0x01, 0x02,''"
  by (simp add: array_body_def emit_bytes_Cons step_text_def line_start_def hex_literal_chars hex_digit_def)

lemma lines_17:
  "split_lines (array_body [0x00, 0x01, 0x02, 0x03, 0x04, 0x05, 0x06, 0x07, 0x08, 0x09, 0x0a, 0x0b, 0x0c, 0x0d, 0x0e, 0x0f, 0x10]) =
     [[],
      ''    0x00, 0x01, 0x02, 0x03, 0x04, 0x05, 0x06, 0x07, 0x08, 0x09, 0x0a, 0x0b, 0x0c, 0x0d, 0x0e, 0x0f,'',
      ''    0x10,'']"
  unfolding split_lines_array_body
  by (simp add: payload_line_def hex_literal_chars hex_digit_def)

lemma join_with_blank: "join_with '' '' ss = join_sp ss"
  by (induction ss rule: join_sp.induct) simp_all

lemma lines_shift:
  "concat (map (\<lambda>c. CHR 0x0A # f c) cs) @ [CHR 0x0A] = CHR 0x0A # concat (map (\<lambda>c. f c @ [CHR 0x0A]) cs)"
  by (induction cs) simp_all

lemma header_content_layout: "header_content name data = header_layout name data"
proof -
  have "array_body data @ ''\<newline>'' =
      ''\<newline>'' @ concat (map (\<lambda>c. payload_line c @ ''\<newline>'') (chunks16 data))"
    unfolding array_body_chunks using lines_shift [of payload_line "chunks16 data"] by simp
  then have "array_body data @ header_close (length data) =
      ''\<newline>'' @ concat (map (\<lambda>c. payload_line c @ ''\<newline>'') (chunks16 data)) @
      ''};\<newline>'' @ ''\<newline>'' @
      ''const unsigned int SPLASH_IMAGE_SIZE = '' @ dec_str (length data) @ '';\<newline>'' @
      ''\<newline>'' @ ''#endif // SPLASH_IMAGE_DATA_H\<newline>''"
    unfolding header_close_def by (metis append_assoc)
  then show ?thesis
    unfolding header_content_split header_layout_def header_open_def
    by (simp add: payload_line_def join_with_blank)
qed

lemma dec_str_1: "dec_str (Suc 0) = ''1''"
  by (simp add: dec_str.simps [of "Suc 0"] dec_digit_def)

lemma body_17:
  "array_body [0x00, 0x01, 0x02, 0x03, 0x04, 0x05, 0x06, 0x07, 0x08, 0x09, 0x0a, 0x0b, 0x0c, 0x0d, 0x0e, 0x0f, 0x10] =
     ''\<newline>    0x00, 0x01, 0x02, 0x03, 0x04, 0x05, 0x06, 0x07, 0x08, 0x09, 0x0a, 0x0b, 0x0c, 0x0d, 0x0e, 0x0f,\<newline>    0x10,''"
  unfolding array_body_chunks
  by (simp add: payload_line_def hex_literal_chars hex_digit_def)

lemma header_17:
  "header_content name [0x00, 0x01, 0x02, 0x03, 0x04, 0x05, 0x06, 0x07, 0x08, 0x09, 0x0a, 0x0b, 0x0c, 0x0d, 0x0e, 0x0f, 0x10]
     = header_open name 17 @
       ''\<newline>    0x00, 0x01, 0x02, 0x03, 0x04, 0x05, 0x06, 0x07, 0x08, 0x09, 0x0a, 0x0b, 0x0c, 0x0d, 0x0e, 0x0f,\<newline>    0x10,'' @
       header_close 17"
proof -
  have "length ([0x00, 0x01, 0x02, 0x03, 0x04, 0x05, 0x06, 0x07, 0x08, 0x09, 0x0a, 0x0b, 0x0c, 0x0d, 0x0e, 0x0f, 0x10] :: byte list) = 17"
    by simp
  then show ?thesis
    by (simp only: header_content_split body_17)
qed

section \<open>Properties of the function\<close>

lemma run_success:
  assumes "png_to_cpp_array p q w = (Inr True, w1)"
  obtains data w' where "read_bytes w p = Inr data"
    and "write_text w q (header_content (basename p) data) = Inr w'"
    and "files w1 = files w'"
  using assms
  by (auto simp add: png_to_cpp_array_def print_def split: if_splits sum.splits)

lemma write_text_files:
  assumes "write_text w q s = Inr w'"
  obtains r wr where "files w' = (files w)(q \<mapsto> RegularFile (encode s) r wr)" and "wr"
    and "q \<noteq> []"
  using assms
  by (auto simp add: write_text_def split: option.splits fnode.splits if_splits)

section \<open>The claims\<close>

text \<open>
  On the one-byte input \<open>0x89\<close> the array body, which is what the generated text holds
  between its two templates, ends with a comma: the final byte literal is followed by one.
\<close>

theorem trailing_comma_counterexample:
  "array_body [0x89] = ''\<newline>    0x89,'' \<and> last (array_body [0x89]) = CHR '',''
   \<and> header_content ''splash.png'' [0x89]
       = header_open ''splash.png'' 1 @ ''\<newline>    0x89,'' @ header_close 1"
  by (simp add: header_content_split body_one_byte hex_literal_0x89)

text \<open>
  Claim C1, as the code has it. The generated text is the first template, the array body
  and the second template. Every byte literal of that body is followed by a comma, the
  final one included: the blank-separated tokens of the body are, byte for byte of the
  input, the literal with a comma directly after it, and a non-empty body ends with the
  literal of the last byte and its comma, with nothing after that comma. Every comma of
  the body that is not the last character of a payload line (the next character is not a
  line break and the body does not end there) is followed by exactly one blank, that is by
  a blank and then a character that is not a blank.
\<close>

theorem every_literal_has_comma:
  "header_content name data
     = header_open name (length data) @ array_body data @ header_close (length data)
   \<and> tokens (array_body data) = map (\<lambda>b. hex_literal b @ '','') data
   \<and> (data \<noteq> [] \<longrightarrow> (\<exists>pre. array_body data = pre @ hex_literal (last data) @ '',''))
   \<and> (\<forall>pre post. array_body data = pre @ CHR '','' # post \<longrightarrow>
         post = [] \<or> hd post = CHR 0x0A \<or> (\<exists>e r. post = CHR '' '' # e # r \<and> e \<noteq> CHR '' ''))"
proof (intro conjI)
  show "header_content name data
      = header_open name (length data) @ array_body data @ header_close (length data)"
    by (rule header_content_split)
  show "tokens (array_body data) = map (\<lambda>b. hex_literal b @ '','') data"
    by (rule tokens_array_body)
  show "data \<noteq> [] \<longrightarrow> (\<exists>pre. array_body data = pre @ hex_literal (last data) @ '','')"
    using array_body_last [of data] by blast
  show "\<forall>pre post. array_body data = pre @ CHR '','' # post \<longrightarrow>
      post = [] \<or> hd post = CHR 0x0A \<or> (\<exists>e r. post = CHR '' '' # e # r \<and> e \<noteq> CHR '' '')"
    using array_body_commas [of data] by blast
qed

theorem every_literal_has_comma_witness:
  "[0x01, 0x02 :: byte] \<noteq> []
   \<and> array_body [0x01, 0x02] = ''\<newline>    0x01'' @ CHR '','' # '' 0x02,''
   \<and> header_content ''splash.png'' [0x01, 0x02]
       = header_open ''splash.png'' 2 @ array_body [0x01, 0x02] @ header_close 2
   \<and> tokens (array_body [0x01, 0x02]) = [hex_literal 0x01 @ '','', hex_literal 0x02 @ '','']
   \<and> (\<exists>pre. array_body [0x01, 0x02] = pre @ hex_literal 0x02 @ '','')
   \<and> (\<exists>e r. '' 0x02,'' = CHR '' '' # e # r \<and> e \<noteq> CHR '' '')"
proof -
  note inst = every_literal_has_comma [where name = "''splash.png''" and data = "[0x01, 0x02]"]
  have b: "array_body [0x01, 0x02] = ''\<newline>    0x01'' @ CHR '','' # '' 0x02,''"
    by (simp add: body_two_bytes)
  from inst have 0: "header_content ''splash.png'' [0x01, 0x02]
      = header_open ''splash.png'' 2 @ array_body [0x01, 0x02] @ header_close 2"
    by (simp add: numeral_2_eq_2)
  from inst have t: "tokens (array_body [0x01, 0x02]) = [hex_literal 0x01 @ '','', hex_literal 0x02 @ '','']"
    by simp
  from inst have 1: "\<exists>pre. array_body [0x01, 0x02] = pre @ hex_literal 0x02 @ '',''" by simp
  from inst b
  have "'' 0x02,'' = [] \<or> hd '' 0x02,'' = CHR 0x0A \<or> (\<exists>e r. '' 0x02,'' = CHR '' '' # e # r \<and> e \<noteq> CHR '' '')"
    by blast
  then have 2: "\<exists>e r. '' 0x02,'' = CHR '' '' # e # r \<and> e \<noteq> CHR '' ''" by simp
  from b 0 t 1 2 show ?thesis by simp
qed

text \<open>
  Claim C2. For every input the generated text is the first template, the array body and
  the second template, and decoding that array body, that is reading each \<open>0xNN\<close>
  token back as a byte in the order of the text, gives the input bytes again, in their
  order.
\<close>

theorem decode_round_trip:
  "header_content name data
     = header_open name (length data) @ array_body data @ header_close (length data)
   \<and> decode_body (array_body data) = data"
  by (simp add: header_content_split array_body_def decode_body_emit)

text \<open>
  Claim C3. The size constant \<open>SPLASH_IMAGE_SIZE\<close> read back from the generated text is
  the length of the input. The generated text is the first template, the array body and
  the second template, and the number of byte literals of that array body is the length of
  the input as well, whether they are counted by decoding or as blank-separated tokens.
\<close>

theorem size_constant_is_length:
  "read_size_constant (header_content name data) = Some (length data)
   \<and> header_content name data
       = header_open name (length data) @ array_body data @ header_close (length data)
   \<and> length (decode_body (array_body data)) = length data
   \<and> length (tokens (array_body data)) = length data"
proof (intro conjI)
  show "read_size_constant (header_content name data) = Some (length data)"
    by (rule read_size_constant_header)
  show "header_content name data
      = header_open name (length data) @ array_body data @ header_close (length data)"
    by (rule header_content_split)
  show "length (decode_body (array_body data)) = length data"
    by (simp add: array_body_def decode_body_emit)
  show "length (tokens (array_body data)) = length data"
    by (simp add: tokens_array_body)
qed

text \<open>
  Claim C4. The generated text is the first template, the array body and the second
  template. For an input of length \<open>N\<close> that array body is a sequence of payload lines,
  each preceded by a line break and starting with the four-blank indentation followed by a
  literal. There are \<open>ceil(N/16)\<close> of them, which is \<open>(N + 15) div 16\<close>; the first
  \<open>N div 16\<close> hold sixteen literals each, and a last shorter line holds the remaining
  \<open>N mod 16\<close> when that is not zero.
\<close>

theorem payload_lines:
  "header_content name data
     = header_open name (length data) @ array_body data @ header_close (length data)
   \<and> split_lines (array_body data) = [] # tl (split_lines (array_body data))
   \<and> array_body data = concat (map (\<lambda>l. CHR 0x0A # l) (tl (split_lines (array_body data))))
   \<and> length (tl (split_lines (array_body data))) = (length data + 15) div 16
   \<and> map (\<lambda>l. length (tokens l)) (tl (split_lines (array_body data)))
       = replicate (length data div 16) 16 @ (if length data mod 16 = 0 then [] else [length data mod 16])
   \<and> list_all (\<lambda>l. take 6 l = ''    0x'') (tl (split_lines (array_body data)))"
proof -
  have sl: "split_lines (array_body data) = [] # map payload_line (chunks16 data)"
    by (rule split_lines_array_body)
  have body: "array_body data = concat (map (\<lambda>l. CHR 0x0A # l) (map payload_line (chunks16 data)))"
    by (simp add: array_body_chunks comp_def)
  have cnt: "map (\<lambda>l. length (tokens l)) (map payload_line (chunks16 data)) = map length (chunks16 data)"
    by (simp add: tokens_payload_line comp_def)
  have ne: "list_all (\<lambda>c. c \<noteq> []) (chunks16 data)"
    by (induction data rule: chunks16.induct) simp_all
  have ind: "c \<noteq> [] \<Longrightarrow> take 6 (payload_line c) = ''    0x''" for c
    by (cases c) (simp_all add: payload_line_def join_sp_Cons hex_literal_chars)
  have start: "list_all (\<lambda>l. take 6 l = ''    0x'') (map payload_line (chunks16 data))"
    using ne ind by (simp add: list_all_iff)
  have layout:
    "split_lines (array_body data) = [] # tl (split_lines (array_body data))
     \<and> array_body data = concat (map (\<lambda>l. CHR 0x0A # l) (tl (split_lines (array_body data))))
     \<and> length (tl (split_lines (array_body data))) = (length data + 15) div 16
     \<and> map (\<lambda>l. length (tokens l)) (tl (split_lines (array_body data)))
         = replicate (length data div 16) 16 @ (if length data mod 16 = 0 then [] else [length data mod 16])
     \<and> list_all (\<lambda>l. take 6 l = ''    0x'') (tl (split_lines (array_body data)))"
    unfolding sl list.sel
    using body cnt start by (simp only: length_map length_chunks16 lengths_chunks16 simp_thms)
  have "header_content name data
      = header_open name (length data) @ array_body data @ header_close (length data)"
    by (rule header_content_split)
  with layout show ?thesis by (rule conjI [rotated])
qed

text \<open>
  Claim C5. When the input path names nothing, the function returns \<open>False\<close> and raises
  nothing; it prints the error line and leaves every file as it was, so the output file is
  neither created nor changed.
\<close>

theorem missing_input_fails:
  "\<not> path_exists w p \<Longrightarrow>
     fst (png_to_cpp_array p q w) = Inr False
     \<and> files (snd (png_to_cpp_array p q w)) = files w
     \<and> console (snd (png_to_cpp_array p q w)) = console w @ [''Error: PNG file not found: '' @ p]"
  by (simp add: png_to_cpp_array_def print_def)

theorem missing_input_fails_witness:
  "\<not> path_exists \<lparr>files = Map.empty, console = []\<rparr> ''../CompanySplashScreen.png''
   \<and> fst (png_to_cpp_array ''../CompanySplashScreen.png'' ''splash_image_data.h''
          \<lparr>files = Map.empty, console = []\<rparr>) = Inr False
   \<and> files (snd (png_to_cpp_array ''../CompanySplashScreen.png'' ''splash_image_data.h''
          \<lparr>files = Map.empty, console = []\<rparr>)) ''splash_image_data.h'' = None"
proof -
  have h: "\<not> path_exists \<lparr>files = Map.empty, console = []\<rparr> ''../CompanySplashScreen.png''"
    by (simp add: path_exists_def)
  from missing_input_fails [OF h, of "''splash_image_data.h''"] h show ?thesis by simp
qed

text \<open>
  On the one-byte input \<open>0x89\<close> with the name \<open>splash.png\<close> the generated text and
  the text of the specification's format differ: the generated text has an empty line
  after the array declaration line and a comma after the literal.
\<close>

theorem header_format_counterexample:
  "header_content ''splash.png'' [0x89] =
     ''#ifndef SPLASH_IMAGE_DATA_H\<newline>#define SPLASH_IMAGE_DATA_H\<newline>\<newline>// Auto-generated from splash.png\<newline>// File size: 1 bytes\<newline>\<newline>const unsigned char SPLASH_IMAGE_DATA[] = {\<newline>\<newline>    0x89,\<newline>};\<newline>\<newline>const unsigned int SPLASH_IMAGE_SIZE = 1;\<newline>\<newline>#endif // SPLASH_IMAGE_DATA_H\<newline>''
   \<and> spec_header ''splash.png'' [0x89] =
     ''#ifndef SPLASH_IMAGE_DATA_H\<newline>#define SPLASH_IMAGE_DATA_H\<newline>\<newline>// Auto-generated from splash.png\<newline>// File size: 1 bytes\<newline>\<newline>const unsigned char SPLASH_IMAGE_DATA[] = {\<newline>    0x89\<newline>};\<newline>\<newline>const unsigned int SPLASH_IMAGE_SIZE = 1;\<newline>\<newline>#endif // SPLASH_IMAGE_DATA_H\<newline>''
   \<and> header_content ''splash.png'' [0x89] \<noteq> spec_header ''splash.png'' [0x89]"
  by (simp add: header_content_layout header_layout_def spec_header_def dec_str_1 hex_literal_0x89)

text \<open>
  Claim C6, as the code has it. For every input the generated text is, character for
  character: the include guard, an empty line, the two comment lines, an empty line, the
  array declaration line, an empty line, the payload lines (four blanks, sixteen literals
  per line, each literal followed by a comma, one blank between a comma and the next
  literal of the line), the closing \<open>};\<close>, an empty line, the size constant line, an
  empty line, and the close of the include guard.
\<close>

theorem header_format: "header_content name data = header_layout name data"
  by (rule header_content_layout)

text \<open>
  On the seventeen bytes \<open>0x00\<close> to \<open>0x10\<close> the last payload line of the array body,
  which is what the generated text holds between its two templates, is the literal
  \<open>0x10\<close> with a comma after it.
\<close>

theorem seventeen_bytes_counterexample:
  "last (split_lines (array_body [0x00, 0x01, 0x02, 0x03, 0x04, 0x05, 0x06, 0x07, 0x08, 0x09, 0x0a, 0x0b, 0x0c, 0x0d, 0x0e, 0x0f, 0x10]))
     = ''    0x10,''
   \<and> header_content ''splash.png'' [0x00, 0x01, 0x02, 0x03, 0x04, 0x05, 0x06, 0x07, 0x08, 0x09, 0x0a, 0x0b, 0x0c, 0x0d, 0x0e, 0x0f, 0x10]
     = header_open ''splash.png'' 17 @
       ''\<newline>    0x00, 0x01, 0x02, 0x03, 0x04, 0x05, 0x06, 0x07, 0x08, 0x09, 0x0a, 0x0b, 0x0c, 0x0d, 0x0e, 0x0f,\<newline>    0x10,'' @
       header_close 17"
  unfolding lines_17 header_17 by simp

text \<open>
  Claim C7, as the code has it. For the seventeen bytes \<open>0x00\<close> to \<open>0x10\<close> the
  generated text is the first template, the array body written out below, and the second
  template. That body has two payload lines after its leading line break: the first holds
  the sixteen entries \<open>0x00,\<close> to \<open>0x0f,\<close>, the second the single entry
  \<open>0x10,\<close>, comma included; the size constant is 17.
\<close>

theorem seventeen_bytes:
  "header_content name [0x00, 0x01, 0x02, 0x03, 0x04, 0x05, 0x06, 0x07, 0x08, 0x09, 0x0a, 0x0b, 0x0c, 0x0d, 0x0e, 0x0f, 0x10]
     = header_open name 17 @
       ''\<newline>    0x00, 0x01, 0x02, 0x03, 0x04, 0x05, 0x06, 0x07, 0x08, 0x09, 0x0a, 0x0b, 0x0c, 0x0d, 0x0e, 0x0f,\<newline>    0x10,'' @
       header_close 17
   \<and> array_body [0x00, 0x01, 0x02, 0x03, 0x04, 0x05, 0x06, 0x07, 0x08, 0x09, 0x0a, 0x0b, 0x0c, 0x0d, 0x0e, 0x0f, 0x10]
     = ''\<newline>    0x00, 0x01, 0x02, 0x03, 0x04, 0x05, 0x06, 0x07, 0x08, 0x09, 0x0a, 0x0b, 0x0c, 0x0d, 0x0e, 0x0f,\<newline>    0x10,''
   \<and> split_lines (array_body [0x00, 0x01, 0x02, 0x03, 0x04, 0x05, 0x06, 0x07, 0x08, 0x09, 0x0a, 0x0b, 0x0c, 0x0d, 0x0e, 0x0f, 0x10]) =
     [[],
      ''    0x00, 0x01, 0x02, 0x03, 0x04, 0x05, 0x06, 0x07, 0x08, 0x09, 0x0a, 0x0b, 0x0c, 0x0d, 0x0e, 0x0f,'',
      ''    0x10,'']
   \<and> map tokens (tl (split_lines (array_body [0x00, 0x01, 0x02, 0x03, 0x04, 0x05, 0x06, 0x07, 0x08, 0x09, 0x0a, 0x0b, 0x0c, 0x0d, 0x0e, 0x0f, 0x10]))) =
     [[''0x00,'', ''0x01,'', ''0x02,'', ''0x03,'', ''0x04,'', ''0x05,'', ''0x06,'', ''0x07,'',
       ''0x08,'', ''0x09,'', ''0x0a,'', ''0x0b,'', ''0x0c,'', ''0x0d,'', ''0x0e,'', ''0x0f,''],
      [''0x10,'']]
   \<and> read_size_constant (header_content name [0x00, 0x01, 0x02, 0x03, 0x04, 0x05, 0x06, 0x07, 0x08, 0x09, 0x0a, 0x0b, 0x0c, 0x0d, 0x0e, 0x0f, 0x10])
       = Some 17"
proof -
  have "read_size_constant (header_content name [0x00, 0x01, 0x02, 0x03, 0x04, 0x05, 0x06, 0x07, 0x08, 0x09, 0x0a, 0x0b, 0x0c, 0x0d, 0x0e, 0x0f, 0x10])
      = Some 17"
    by (simp add: read_size_constant_header)
  then show ?thesis
    unfolding lines_17 header_17 body_17
    by (simp add: tokens_def is_space_def)
qed

text \<open>
  Claim C8. The content written is the header text of the input bytes and the base name of
  the input path, and of nothing else. When a conversion has succeeded and the input path
  still holds the same bytes, converting again with the same paths succeeds as well and
  leaves every file, the output file included, exactly as the first conversion left it.
\<close>

theorem rerun_identical:
  assumes "png_to_cpp_array p q w = (Inr True, w1)"
    and "read_bytes w1 p = read_bytes w p"
  shows "\<exists>data r wr w2.
           read_bytes w p = Inr data
           \<and> files w1 q = Some (RegularFile (encode (header_content (basename p) data)) r wr)
           \<and> png_to_cpp_array p q w1 = (Inr True, w2)
           \<and> files w2 = files w1"
proof -
  from assms(1) obtain data w' where rd: "read_bytes w p = Inr data"
    and wt: "write_text w q (header_content (basename p) data) = Inr w'"
    and f1: "files w1 = files w'"
    by (rule run_success)
  let ?text = "header_content (basename p) data"
  from wt obtain r wr where fw: "files w' = (files w)(q \<mapsto> RegularFile (encode ?text) r wr)" and wr: "wr"
    and q: "q \<noteq> []"
    by (rule write_text_files)
  from f1 fw have out: "files w1 q = Some (RegularFile (encode ?text) r wr)" by simp
  from assms(2) rd have rd1: "read_bytes w1 p = Inr data" by simp
  then have ex1: "path_exists w1 p"
    by (auto simp add: read_bytes_def path_exists_def split: option.splits)
  have wt1: "write_text w1 q ?text = Inr (w1\<lparr>files := (files w1)(q \<mapsto> RegularFile (encode ?text) r wr)\<rparr>)"
    using out wr q by (simp add: write_text_def)
  have same: "(files w1)(q \<mapsto> RegularFile (encode ?text) r wr) = files w1"
    using out by (simp add: fun_upd_idem_iff)
  let ?w2 = "print (''Image size: '' @ dec_str (length data) @ '' bytes'')
               (print (''Successfully generated '' @ q)
                  (w1\<lparr>files := (files w1)(q \<mapsto> RegularFile (encode ?text) r wr)\<rparr>))"
  have run2: "png_to_cpp_array p q w1 = (Inr True, ?w2)"
    using ex1 rd1 wt1 by (simp add: png_to_cpp_array_def)
  have "files ?w2 = files w1" using same by (simp add: print_def)
  with rd out run2 show ?thesis by blast
qed

theorem rerun_identical_witness:
  "png_to_cpp_array ''in.png'' ''out.h'' sample_world
     = (Inr True, snd (png_to_cpp_array ''in.png'' ''out.h'' sample_world))
   \<and> read_bytes (snd (png_to_cpp_array ''in.png'' ''out.h'' sample_world)) ''in.png''
     = read_bytes sample_world ''in.png''
   \<and> (\<exists>w2. png_to_cpp_array ''in.png'' ''out.h'' (snd (png_to_cpp_array ''in.png'' ''out.h'' sample_world))
           = (Inr True, w2)
         \<and> files w2 = files (snd (png_to_cpp_array ''in.png'' ''out.h'' sample_world)))"
proof -
  let ?w1 = "snd (png_to_cpp_array ''in.png'' ''out.h'' sample_world)"
  have h1: "png_to_cpp_array ''in.png'' ''out.h'' sample_world = (Inr True, ?w1)"
    by (simp add: png_to_cpp_array_def sample_world_def path_exists_def read_bytes_def
          write_text_def dirname_def)
  have h2: "read_bytes ?w1 ''in.png'' = read_bytes sample_world ''in.png''"
    by (simp add: png_to_cpp_array_def sample_world_def path_exists_def read_bytes_def
          write_text_def dirname_def print_def)
  from rerun_identical [OF h1 h2] h1 h2 show ?thesis by blast
qed

text \<open>
  Claim C9. An exception leaves the function exactly when the input path exists and
  reading it raises that exception; nothing has been written then. The function returns
  \<open>False\<close> exactly when the input path is missing, or the input was read and the write
  step raised an exception, which the handler caught.
\<close>

theorem only_write_guarded:
  "(fst (png_to_cpp_array p q w) = Inl e) = (path_exists w p \<and> read_bytes w p = Inl e)
   \<and> (fst (png_to_cpp_array p q w) = Inl e \<longrightarrow> snd (png_to_cpp_array p q w) = w)
   \<and> (fst (png_to_cpp_array p q w) = Inr False) =
        (\<not> path_exists w p \<or>
         (\<exists>data e'. read_bytes w p = Inr data \<and>
            write_text w q (header_content (basename p) data) = Inl e'))"
  by (auto simp add: png_to_cpp_array_def split: sum.splits)

theorem only_write_guarded_witness:
  "path_exists \<lparr>files = [''in.png'' \<mapsto> RegularFile [0x89] False True], console = []\<rparr> ''in.png''
   \<and> read_bytes \<lparr>files = [''in.png'' \<mapsto> RegularFile [0x89] False True], console = []\<rparr> ''in.png''
        = Inl PermissionError
   \<and> png_to_cpp_array ''in.png'' ''out.h''
        \<lparr>files = [''in.png'' \<mapsto> RegularFile [0x89] False True], console = []\<rparr>
      = (Inl PermissionError, \<lparr>files = [''in.png'' \<mapsto> RegularFile [0x89] False True], console = []\<rparr>)"
proof -
  let ?w = "\<lparr>files = [''in.png'' \<mapsto> RegularFile [0x89] False True], console = []\<rparr>"
  have h: "path_exists ?w ''in.png'' \<and> read_bytes ?w ''in.png'' = Inl PermissionError"
    by (simp add: path_exists_def read_bytes_def)
  from only_write_guarded [of "''in.png''" "''out.h''" ?w PermissionError] h
  have "fst (png_to_cpp_array ''in.png'' ''out.h'' ?w) = Inl PermissionError
      \<and> snd (png_to_cpp_array ''in.png'' ''out.h'' ?w) = ?w"
    by blast
  with h show ?thesis by (simp add: prod_eq_iff)
qed

text \<open>
  Claim C10. For every byte the literal is the four characters \<open>0x\<close>, the digit of the
  high half-byte and the digit of the low half-byte, both taken from
  \<open>0123456789abcdef\<close>; a value below \<open>0x10\<close> therefore has \<open>0\<close> as its first digit.
  The blank-separated tokens of the array body are these literals, one per input byte, each
  with the comma that line 29 puts after it.
\<close>

theorem literal_shape:
  "hex_literal b = [CHR ''0'', CHR ''x'', hex_digit (unat b div 16), hex_digit (unat b mod 16)]
   \<and> hex_digit (unat b div 16) \<in> set ''0123456789abcdef''
   \<and> hex_digit (unat b mod 16) \<in> set ''0123456789abcdef''
   \<and> (unat b < 16 \<longrightarrow> hex_literal b = [CHR ''0'', CHR ''x'', CHR ''0'', hex_digit (unat b)])
   \<and> tokens (array_body data) = map (\<lambda>b. hex_literal b @ '','') data"
proof -
  have d: "unat b div 16 < 16" using unat_byte_less [of b] by simp
  have m: "unat b mod 16 < 16" by simp
  have z: "hex_digit 0 = CHR ''0''" by (simp add: hex_digit_def)
  show ?thesis
    using hex_digit_in [OF d] hex_digit_in [OF m]
    by (simp only: hex_literal_chars tokens_array_body) (simp add: z)
qed

theorem literal_shape_witness:
  "unat (0x0a :: byte) < 16 \<and> hex_literal 0x0a = ''0x0a'' \<and> hex_literal 0xff = ''0xff''
   \<and> tokens (array_body [0x0a, 0xff]) = [''0x0a,'', ''0xff,'']"
  using literal_shape [of "0x0a" "[0x0a, 0xff]"] literal_shape [of "0xff" "[]"]
  by (simp add: hex_digit_def)

end
